theory Spec2Isabelle
  imports Main "HOL-Library.Word"
begin

section \<open>Backends and the outside world\<close>

text \<open>
  A \<open>simpleServer\<close> holds the backend's address; its \<open>proxy\<close> field is the reverse
  proxy built from that same address by \<open>newSimpleServer\<close> and carries no further
  information, so the address stands for both. \<open>simpleServer\<close> is the only
  implementation of the \<open>Server\<close> interface.
\<close>

record simpleServer =
  address :: string

type_synonym Server = simpleServer

text \<open>
  What \<open>http.Head\<close> hands back: an error and no response, or a response, of which only
  the status matters here. Line 63 of the source compares \<open>resp.Status\<close> with 400. In
  \<open>net/http\<close> that field is the status line as a string and \<open>StatusCode\<close> is the number,
  so the comparison as written is not well typed and the package does not build. The
  model keeps the number and reads the comparison as \<open>resp.StatusCode >= 400\<close>. Apart from
  \<open>IsAlive\<close> itself, everything below depends only on the boolean that a probe yields.
\<close>

datatype head_result = TransportError | Response int

text \<open>
  The outbound requests issued so far, oldest first. The network decides the reply to a
  request from its position in that sequence and from the URL asked, so a backend may
  answer differently each time it is probed.
\<close>

datatype event = Head string | Forward string

type_synonym network = "nat \<Rightarrow> string \<Rightarrow> head_result"

definition http_Head :: "network \<Rightarrow> string \<Rightarrow> event list \<Rightarrow> head_result \<times> event list" where
  "http_Head net url tr = (net (length tr) url, tr @ [Head url])"

definition Address :: "Server \<Rightarrow> string" where
  "Address s = address s"

text \<open>
  \<open>if err != nil || resp.Status >= 400 { return false }; return true\<close>, with the status
  read as the numeric code.
\<close>

definition IsAlive :: "network \<Rightarrow> Server \<Rightarrow> event list \<Rightarrow> bool \<times> event list" where
  "IsAlive net s tr =
     (case http_Head net (address s) tr of
        (TransportError, tr') \<Rightarrow> (False, tr')
      | (Response status, tr') \<Rightarrow> if status \<ge> 400 then (False, tr') else (True, tr'))"

text \<open>\<open>Serve\<close> hands the request to the reverse proxy: one request to the backend.\<close>

definition Serve :: "Server \<Rightarrow> event list \<Rightarrow> event list" where
  "Serve s tr = tr @ [Forward (address s)]"

section \<open>The load balancer\<close>

text \<open>Go's \<open>int\<close> on a 64-bit target: \<open>++\<close> and \<open>--\<close> wrap around.\<close>

record LoadBalancer =
  port :: string
  roundRobinCount :: "64 word"
  servers :: "Server list"

definition NewLoadBalancer :: "string \<Rightarrow> Server list \<Rightarrow> LoadBalancer" where
  "NewLoadBalancer p ss = \<lparr>port = p, roundRobinCount = 0, servers = ss\<rparr>"

datatype panic = DivideByZero | IndexOutOfRange

text \<open>Go's \<open>%\<close> truncates towards zero: the remainder has the sign of the dividend.\<close>

definition go_rem :: "int \<Rightarrow> int \<Rightarrow> int" where
  "go_rem a b = sgn a * (\<bar>a\<bar> mod \<bar>b\<bar>)"

text \<open>
  \<open>lb.servers[lb.roundRobinCount%len(lb.servers)]\<close>: the remainder panics on an empty
  list, the index expression panics on a negative index.
\<close>

definition server_at_cursor :: "LoadBalancer \<Rightarrow> panic + Server" where
  "server_at_cursor lb =
     (let n = int (length (servers lb)) in
      if n = 0 then Inl DivideByZero
      else
        let i = go_rem (sint (roundRobinCount lb)) n in
        if i < 0 \<or> n \<le> i then Inl IndexOutOfRange
        else Inr (servers lb ! nat i))"

text \<open>
  One turn of \<open>for !server.IsAlive() { lb.roundRobinCount++; server = ... }\<close>, from the
  test of the condition to the next test: the loop is left when the probe succeeds or
  the body panics, and goes round again otherwise. The load balancer is a pointer, so
  the cursor keeps what a panicking turn has written.
\<close>

datatype iteration =
    Again LoadBalancer Server "event list"
  | Leave "panic + Server" LoadBalancer "event list"

definition loop_turn :: "network \<Rightarrow> LoadBalancer \<Rightarrow> Server \<Rightarrow> event list \<Rightarrow> iteration" where
  "loop_turn net lb server tr =
     (case IsAlive net server tr of
        (alive, tr') \<Rightarrow>
          if \<not> alive then
            (let lb' = lb\<lparr>roundRobinCount := roundRobinCount lb + 1\<rparr> in
             case server_at_cursor lb' of
               Inl e \<Rightarrow> Leave (Inl e) lb' tr'
             | Inr server' \<Rightarrow> Again lb' server' tr')
          else Leave (Inr server) lb tr')"

text \<open>The loop itself has no bound: \<open>None\<close> is the run that never leaves it.\<close>

partial_function (option) for_loop ::
  "network \<Rightarrow> LoadBalancer \<Rightarrow> Server \<Rightarrow> event list \<Rightarrow> ((panic + Server) \<times> LoadBalancer \<times> event list) option"
where
  "for_loop net lb server tr =
     (case loop_turn net lb server tr of
        Again lb' server' tr' \<Rightarrow> for_loop net lb' server' tr'
      | Leave r lb' tr' \<Rightarrow> Some (r, lb', tr'))"

text \<open>Where the loop stands after \<open>k\<close> turns.\<close>

fun turns :: "network \<Rightarrow> nat \<Rightarrow> LoadBalancer \<Rightarrow> Server \<Rightarrow> event list \<Rightarrow> iteration" where
  "turns net 0 lb server tr = Again lb server tr"
| "turns net (Suc k) lb server tr =
     (case turns net k lb server tr of
        Again lb' server' tr' \<Rightarrow> loop_turn net lb' server' tr'
      | Leave r lb' tr' \<Rightarrow> Leave r lb' tr')"

definition getNextAvailableServer ::
  "network \<Rightarrow> LoadBalancer \<Rightarrow> event list \<Rightarrow> ((panic + Server) \<times> LoadBalancer \<times> event list) option"
where
  "getNextAvailableServer net lb tr =
     (case server_at_cursor lb of
        Inl e \<Rightarrow> Some (Inl e, lb, tr)
      | Inr server \<Rightarrow>
          (case for_loop net lb server tr of
             None \<Rightarrow> None
           | Some (Inl e, lb', tr') \<Rightarrow> Some (Inl e, lb', tr')
           | Some (Inr server', lb', tr') \<Rightarrow>
               Some (Inr server', lb'\<lparr>roundRobinCount := roundRobinCount lb' - 1\<rparr>, tr')))"

text \<open>
  \<open>serveProxy\<close> picks the target, evaluates \<open>targetServer.IsAlive()\<close> as the argument of
  its log line, and serves. Standard output is not part of the model.
\<close>

definition serveProxy ::
  "network \<Rightarrow> LoadBalancer \<Rightarrow> event list \<Rightarrow> ((panic + unit) \<times> LoadBalancer \<times> event list) option"
where
  "serveProxy net lb tr =
     (case getNextAvailableServer net lb tr of
        None \<Rightarrow> None
      | Some (Inl e, lb', tr') \<Rightarrow> Some (Inl e, lb', tr')
      | Some (Inr targetServer, lb', tr') \<Rightarrow>
          (case IsAlive net targetServer tr' of
             (logged, tr'') \<Rightarrow> Some (Inr (), lb', Serve targetServer tr'')))"

declare for_loop.simps [code]

section \<open>Scenarios\<close>

text \<open>A number of calls one after the other, each on what the one before left behind.\<close>

fun consecutive_calls ::
  "network \<Rightarrow> nat \<Rightarrow> LoadBalancer \<Rightarrow> event list \<Rightarrow> ((panic + Server list) \<times> LoadBalancer \<times> event list) option"
where
  "consecutive_calls net 0 lb tr = Some (Inr [], lb, tr)"
| "consecutive_calls net (Suc n) lb tr =
     (case getNextAvailableServer net lb tr of
        None \<Rightarrow> None
      | Some (Inl e, lb', tr') \<Rightarrow> Some (Inl e, lb', tr')
      | Some (Inr s, lb', tr') \<Rightarrow>
          (case consecutive_calls net n lb' tr' of
             None \<Rightarrow> None
           | Some (Inl e, lb'', tr'') \<Rightarrow> Some (Inl e, lb'', tr'')
           | Some (Inr ss, lb'', tr'') \<Rightarrow> Some (Inr (s # ss), lb'', tr'')))"

definition probes :: "event list \<Rightarrow> nat" where
  "probes tr = length (filter (\<lambda>e. case e of Head _ \<Rightarrow> True | Forward _ \<Rightarrow> False) tr)"

definition forwards :: "event list \<Rightarrow> nat" where
  "forwards tr = length (filter (\<lambda>e. case e of Head _ \<Rightarrow> False | Forward _ \<Rightarrow> True) tr)"

text \<open>The backend \<open>j\<close> places after the cursor, in the configured order taken circularly.\<close>

definition circular :: "LoadBalancer \<Rightarrow> nat \<Rightarrow> Server" where
  "circular lb j =
     servers lb ! ((nat (sint (roundRobinCount lb)) + j) mod length (servers lb))"

section \<open>One probe, one turn of the loop\<close>

lemma IsAlive_snd: "snd (IsAlive net s tr) = tr @ [Head (address s)]"
  by (simp add: IsAlive_def http_Head_def split: head_result.split)

lemma IsAlive_pair: "IsAlive net s tr = (fst (IsAlive net s tr), tr @ [Head (address s)])"
  by (simp add: IsAlive_def http_Head_def split: head_result.split)

lemma IsAlive_length_cong:
  "length tr1 = length tr2 \<Longrightarrow> fst (IsAlive net s tr1) = fst (IsAlive net s tr2)"
  by (simp add: IsAlive_def http_Head_def split: head_result.split)

lemma loop_turn_alive:
  "fst (IsAlive net server tr) \<Longrightarrow>
   loop_turn net lb server tr = Leave (Inr server) lb (tr @ [Head (address server)])"
  using IsAlive_snd [of net server tr]
  by (cases "IsAlive net server tr") (simp add: loop_turn_def)

lemma loop_turn_dead:
  "\<not> fst (IsAlive net server tr) \<Longrightarrow>
   loop_turn net lb server tr =
     (case server_at_cursor (lb\<lparr>roundRobinCount := roundRobinCount lb + 1\<rparr>) of
        Inl e \<Rightarrow> Leave (Inl e) (lb\<lparr>roundRobinCount := roundRobinCount lb + 1\<rparr>) (tr @ [Head (address server)])
      | Inr server' \<Rightarrow> Again (lb\<lparr>roundRobinCount := roundRobinCount lb + 1\<rparr>) server' (tr @ [Head (address server)]))"
  using IsAlive_snd [of net server tr]
  by (cases "IsAlive net server tr") (simp add: loop_turn_def Let_def)

lemma for_loop_alive:
  "fst (IsAlive net server tr) \<Longrightarrow>
   for_loop net lb server tr = Some (Inr server, lb, tr @ [Head (address server)])"
  by (subst for_loop.simps) (simp add: loop_turn_alive)

lemma for_loop_dead:
  "\<not> fst (IsAlive net server tr) \<Longrightarrow>
   for_loop net lb server tr =
     (case server_at_cursor (lb\<lparr>roundRobinCount := roundRobinCount lb + 1\<rparr>) of
        Inl e \<Rightarrow> Some (Inl e, lb\<lparr>roundRobinCount := roundRobinCount lb + 1\<rparr>, tr @ [Head (address server)])
      | Inr server' \<Rightarrow> for_loop net (lb\<lparr>roundRobinCount := roundRobinCount lb + 1\<rparr>) server' (tr @ [Head (address server)]))"
  by (subst for_loop.simps) (simp add: loop_turn_dead split: sum.split)

lemma server_at_cursor_0: "server_at_cursor \<lparr>port = p, roundRobinCount = 0, servers = a # ss\<rparr> = Inr a"
  by (simp add: server_at_cursor_def go_rem_def)

lemma server_at_cursor_1:
  "server_at_cursor \<lparr>port = p, roundRobinCount = 1, servers = a # b # ss\<rparr> = Inr b"
  by (simp add: server_at_cursor_def go_rem_def)

lemma loop_turn_AgainD:
  assumes "loop_turn net lb s tr = Again lb' s' tr'"
  shows "\<not> fst (IsAlive net s tr) \<and> lb' = lb\<lparr>roundRobinCount := roundRobinCount lb + 1\<rparr>
         \<and> server_at_cursor lb' = Inr s' \<and> tr' = tr @ [Head (address s)]"
proof (cases "fst (IsAlive net s tr)")
  case True
  with assms show ?thesis by (simp add: loop_turn_alive)
next
  case False
  with assms show ?thesis by (simp add: loop_turn_dead split: sum.splits)
qed

lemma loop_turn_Leave_InrD:
  assumes "loop_turn net lb s tr = Leave (Inr s') lb' tr'"
  shows "fst (IsAlive net s tr) \<and> s' = s \<and> lb' = lb \<and> tr' = tr @ [Head (address s)]"
proof (cases "fst (IsAlive net s tr)")
  case True
  with assms show ?thesis by (auto simp: loop_turn_alive)
next
  case False
  with assms show ?thesis by (simp add: loop_turn_dead split: sum.splits)
qed

lemma turns_Suc_front:
  "turns net (Suc k) lb s tr =
     (case loop_turn net lb s tr of
        Again lb1 s1 tr1 \<Rightarrow> turns net k lb1 s1 tr1
      | Leave r lb1 tr1 \<Rightarrow> Leave r lb1 tr1)"
proof (induction k)
  case 0
  show ?case by (simp split: iteration.split)
next
  case (Suc k)
  have "turns net (Suc (Suc k)) lb s tr =
          (case turns net (Suc k) lb s tr of
             Again lb' server' tr' \<Rightarrow> loop_turn net lb' server' tr'
           | Leave r lb' tr' \<Rightarrow> Leave r lb' tr')"
    by (rule turns.simps(2))
  also have "\<dots> = (case loop_turn net lb s tr of
        Again lb1 s1 tr1 \<Rightarrow> turns net (Suc k) lb1 s1 tr1
      | Leave r lb1 tr1 \<Rightarrow> Leave r lb1 tr1)"
    unfolding Suc.IH by (simp split: iteration.split)
  finally show ?case .
qed

lemma for_loop_turns:
  "for_loop net lb s tr =
     (case turns net k lb s tr of
        Again lb' s' tr' \<Rightarrow> for_loop net lb' s' tr'
      | Leave r lb' tr' \<Rightarrow> Some (r, lb', tr'))"
proof (induction k)
  case 0
  show ?case by simp
next
  case (Suc k)
  show ?case
  proof (cases "turns net k lb s tr")
    case (Again lb' s' tr')
    then show ?thesis
      using Suc.IH by (simp add: for_loop.simps [of net lb' s' tr'])
  next
    case (Leave r lb' tr')
    then show ?thesis using Suc.IH by simp
  qed
qed

lemma for_loop_SomeD:
  assumes "for_loop net lb s tr = Some y"
  shows "\<exists>k lb_k s_k tr_k. turns net k lb s tr = Again lb_k s_k tr_k
           \<and> loop_turn net lb_k s_k tr_k = Leave (fst y) (fst (snd y)) (snd (snd y))"
proof (rule for_loop.raw_induct [where P = "\<lambda>net lb s tr y.
         \<exists>k lb_k s_k tr_k. turns net k lb s tr = Again lb_k s_k tr_k
           \<and> loop_turn net lb_k s_k tr_k = Leave (fst y) (fst (snd y)) (snd (snd y))",
       OF _ assms])
  fix f :: "network \<Rightarrow> LoadBalancer \<Rightarrow> Server \<Rightarrow> event list
              \<Rightarrow> ((panic + Server) \<times> LoadBalancer \<times> event list) option"
  fix net lb s tr y
  assume IH: "\<And>net lb s tr y. f net lb s tr = Some y \<Longrightarrow>
         \<exists>k lb_k s_k tr_k. turns net k lb s tr = Again lb_k s_k tr_k
           \<and> loop_turn net lb_k s_k tr_k = Leave (fst y) (fst (snd y)) (snd (snd y))"
  assume body: "(case loop_turn net lb s tr of
                   Again lb' server' tr' \<Rightarrow> f net lb' server' tr'
                 | Leave r lb' tr' \<Rightarrow> Some (r, lb', tr')) = Some y"
  show "\<exists>k lb_k s_k tr_k. turns net k lb s tr = Again lb_k s_k tr_k
           \<and> loop_turn net lb_k s_k tr_k = Leave (fst y) (fst (snd y)) (snd (snd y))"
  proof (cases "loop_turn net lb s tr")
    case (Again lb1 s1 tr1)
    with body have "f net lb1 s1 tr1 = Some y" by simp
    from IH [OF this] obtain k lb_k s_k tr_k where
      k: "turns net k lb1 s1 tr1 = Again lb_k s_k tr_k"
         "loop_turn net lb_k s_k tr_k = Leave (fst y) (fst (snd y)) (snd (snd y))"
      by blast
    have "turns net (Suc k) lb s tr = Again lb_k s_k tr_k"
      using k(1) Again by (simp only: turns_Suc_front iteration.case)
    with k(2) show ?thesis by blast
  next
    case (Leave r lb1 tr1)
    with body have "y = (r, lb1, tr1)" by simp
    with Leave have "turns net 0 lb s tr = Again lb s tr
        \<and> loop_turn net lb s tr = Leave (fst y) (fst (snd y)) (snd (snd y))"
      by simp
    then show ?thesis by blast
  qed
qed

section \<open>The cursor\<close>

lemma sint_add_of_nat:
  fixes c :: "64 word"
  assumes "- (2 ^ 63) \<le> sint c + int k" "sint c + int k < 2 ^ 63"
  shows "sint (c + of_nat k) = sint c + int k"
proof -
  have "c + of_nat k = word_of_int (sint c + int k)" by simp
  then have "sint (c + of_nat k) = signed_take_bit 63 (sint c + int k)"
    by (simp only: sint_sbintrunc') simp
  with assms show ?thesis by (simp add: signed_take_bit_int_eq_self)
qed

lemma sint_add_of_nat_minus_1:
  fixes c :: "64 word"
  assumes "- (2 ^ 63) \<le> sint c + int k - 1" "sint c + int k - 1 < 2 ^ 63"
  shows "sint (c + of_nat k - 1) = sint c + int k - 1"
proof -
  have "c + of_nat k - 1 = word_of_int (sint c + int k - 1)" by simp
  then have "sint (c + of_nat k - 1) = signed_take_bit 63 (sint c + int k - 1)"
    by (simp only: sint_sbintrunc') simp
  with assms show ?thesis by (simp add: signed_take_bit_int_eq_self)
qed

lemma go_rem_nonneg: "0 \<le> a \<Longrightarrow> 0 < b \<Longrightarrow> go_rem a b = a mod b"
  by (cases "a = 0") (simp_all add: go_rem_def)

lemma server_at_cursor_nonneg:
  assumes "servers lb \<noteq> []" "0 \<le> sint (roundRobinCount lb)"
  shows "server_at_cursor lb =
           Inr (servers lb ! (nat (sint (roundRobinCount lb)) mod length (servers lb)))"
proof -
  let ?n = "int (length (servers lb))"
  from assms(1) have n: "0 < ?n" by simp
  have r: "go_rem (sint (roundRobinCount lb)) ?n = sint (roundRobinCount lb) mod ?n"
    using assms(2) n by (rule go_rem_nonneg)
  have lo: "\<not> sint (roundRobinCount lb) mod ?n < 0"
    using n by (simp add: not_less)
  have hi: "\<not> ?n \<le> sint (roundRobinCount lb) mod ?n"
    using n by (simp add: not_le)
  have ix: "nat (sint (roundRobinCount lb) mod ?n) =
            nat (sint (roundRobinCount lb)) mod length (servers lb)"
    using assms(2) by (simp add: nat_mod_distrib)
  have "server_at_cursor lb = Inr (servers lb ! nat (sint (roundRobinCount lb) mod ?n))"
    unfolding server_at_cursor_def Let_def r using n lo hi by simp
  then show ?thesis by (simp only: ix)
qed

lemma server_at_cursor_single: "servers lb = [s] \<Longrightarrow> server_at_cursor lb = Inr s"
  by (simp add: server_at_cursor_def go_rem_def)

lemma turns_AgainD:
  "turns net k lb s tr = Again lb_k s_k tr_k \<Longrightarrow>
     lb_k = lb\<lparr>roundRobinCount := roundRobinCount lb + of_nat k\<rparr>
     \<and> (\<exists>probed. length probed = k \<and> tr_k = tr @ map (Head \<circ> address) probed
           \<and> (\<forall>j<k. \<not> fst (IsAlive net (probed ! j) (take (length tr + j) tr_k))))"
proof (induction k arbitrary: lb_k s_k tr_k)
  case 0
  then show ?case by simp
next
  case (Suc k)
  from Suc.prems obtain lb1 s1 tr1 where
    t: "turns net k lb s tr = Again lb1 s1 tr1" and l: "loop_turn net lb1 s1 tr1 = Again lb_k s_k tr_k"
    by (auto split: iteration.splits)
  from Suc.IH [OF t] obtain probed where
    lb1: "lb1 = lb\<lparr>roundRobinCount := roundRobinCount lb + of_nat k\<rparr>" and
    p: "length probed = k" "tr1 = tr @ map (Head \<circ> address) probed"
       "\<forall>j<k. \<not> fst (IsAlive net (probed ! j) (take (length tr + j) tr1))"
    by blast
  from loop_turn_AgainD [OF l] have
    d: "\<not> fst (IsAlive net s1 tr1)" and
    lbk: "lb_k = lb1\<lparr>roundRobinCount := roundRobinCount lb1 + 1\<rparr>" and
    trk: "tr_k = tr1 @ [Head (address s1)]"
    by simp_all
  have len1: "length tr1 = length tr + k" using p by simp
  have "lb_k = lb\<lparr>roundRobinCount := roundRobinCount lb + of_nat (Suc k)\<rparr>"
    using lbk lb1 by (simp add: add.assoc)
  moreover have "length (probed @ [s1]) = Suc k" using p by simp
  moreover have "tr_k = tr @ map (Head \<circ> address) (probed @ [s1])"
    using trk p by simp
  moreover have "\<forall>j<Suc k. \<not> fst (IsAlive net ((probed @ [s1]) ! j) (take (length tr + j) tr_k))"
  proof (intro allI impI)
    fix j assume j: "j < Suc k"
    show "\<not> fst (IsAlive net ((probed @ [s1]) ! j) (take (length tr + j) tr_k))"
    proof (cases "j < k")
      case True
      then have "take (length tr + j) tr_k = take (length tr + j) tr1"
        using trk len1 by simp
      with True p show ?thesis by (simp add: nth_append)
    next
      case False
      with j have "j = k" by simp
      then have "take (length tr + j) tr_k = tr1" "(probed @ [s1]) ! j = s1"
        using trk len1 p by (simp_all add: nth_append)
      with d show ?thesis by simp
    qed
  qed
  ultimately show ?case by blast
qed

lemma getNextAvailableServer_InrD:
  assumes "getNextAvailableServer net lb tr = Some (Inr s, lb', tr')"
  shows "\<exists>s0 lb1. server_at_cursor lb = Inr s0 \<and> for_loop net lb s0 tr = Some (Inr s, lb1, tr')
           \<and> lb' = lb1\<lparr>roundRobinCount := roundRobinCount lb1 - 1\<rparr>"
  using assms
  by (auto simp: getNextAvailableServer_def split: sum.splits option.splits)

text \<open>Every call that returns a backend has made some failed probes and then one that succeeded.\<close>

lemma returning_call_cursor:
  assumes "getNextAvailableServer net lb tr = Some (Inr s, lb', tr')"
    and "k = probes tr' - Suc (probes tr)"
  shows "(\<exists>probed. length probed = k
            \<and> tr' = tr @ map (Head \<circ> address) probed @ [Head (address s)]
            \<and> (\<forall>j<k. \<not> fst (IsAlive net (probed ! j) (take (length tr + j) tr')))
            \<and> fst (IsAlive net s (take (length tr + k) tr')))
         \<and> lb' = lb\<lparr>roundRobinCount := roundRobinCount lb + of_nat k - 1\<rparr>
         \<and> (- (2 ^ 63) \<le> sint (roundRobinCount lb) + int k - 1
              \<and> sint (roundRobinCount lb) + int k - 1 < 2 ^ 63 \<longrightarrow>
            sint (roundRobinCount lb') = sint (roundRobinCount lb) + int k - 1)
         \<and> (k = 0 \<longrightarrow> roundRobinCount lb' = roundRobinCount lb - 1)
         \<and> (k = 0 \<and> lb = NewLoadBalancer (port lb) (servers lb) \<longrightarrow>
              sint (roundRobinCount lb') = - 1)"
proof -
  from getNextAvailableServer_InrD [OF assms(1)] obtain s0 lb1 where
    run: "for_loop net lb s0 tr = Some (Inr s, lb1, tr')" and
    lb': "lb' = lb1\<lparr>roundRobinCount := roundRobinCount lb1 - 1\<rparr>"
    by blast
  from for_loop_SomeD [OF run] obtain n lb_n s_n tr_n where
    t: "turns net n lb s0 tr = Again lb_n s_n tr_n" and
    l: "loop_turn net lb_n s_n tr_n = Leave (Inr s) lb1 tr'"
    by auto
  from loop_turn_Leave_InrD [OF l] have
    alive: "fst (IsAlive net s_n tr_n)" and eqs: "s = s_n" "lb1 = lb_n" "tr' = tr_n @ [Head (address s_n)]"
    by simp_all
  from turns_AgainD [OF t] obtain probed where
    lbn: "lb_n = lb\<lparr>roundRobinCount := roundRobinCount lb + of_nat n\<rparr>" and
    p: "length probed = n" "tr_n = tr @ map (Head \<circ> address) probed"
       "\<forall>j<n. \<not> fst (IsAlive net (probed ! j) (take (length tr + j) tr_n))"
    by blast
  have "probes tr' = probes tr + n + 1"
    using eqs p by (simp add: probes_def filter_map comp_def)
  with assms(2) have k: "k = n" by simp
  have len: "length tr_n = length tr + n" using p by simp
  have c1: "tr' = tr @ map (Head \<circ> address) probed @ [Head (address s)]"
    using eqs p by simp
  have c2: "\<forall>j<k. \<not> fst (IsAlive net (probed ! j) (take (length tr + j) tr'))"
  proof (intro allI impI)
    fix j assume "j < k"
    then have j: "j < n" using k by simp
    then have "take (length tr + j) tr' = take (length tr + j) tr_n"
      using eqs len by simp
    with p(3) j show "\<not> fst (IsAlive net (probed ! j) (take (length tr + j) tr'))" by simp
  qed
  have "take (length tr + k) tr' = tr_n"
    using eqs len k by simp
  then have c3: "fst (IsAlive net s (take (length tr + k) tr'))"
    using alive eqs by simp
  have c0: "length probed = k" using p k by simp
  have c4: "lb' = lb\<lparr>roundRobinCount := roundRobinCount lb + of_nat k - 1\<rparr>"
    using lb' eqs lbn k by simp
  then have cnt: "roundRobinCount lb' = roundRobinCount lb + of_nat k - 1"
    by simp
  have c5: "- (2 ^ 63) \<le> sint (roundRobinCount lb) + int k - 1
              \<and> sint (roundRobinCount lb) + int k - 1 < 2 ^ 63 \<longrightarrow>
            sint (roundRobinCount lb') = sint (roundRobinCount lb) + int k - 1"
    unfolding cnt
    using sint_add_of_nat_minus_1 [of "roundRobinCount lb" k] by blast
  have c6: "k = 0 \<longrightarrow> roundRobinCount lb' = roundRobinCount lb - 1"
    using cnt by simp
  have c7: "k = 0 \<and> lb = NewLoadBalancer (port lb) (servers lb) \<longrightarrow>
              sint (roundRobinCount lb') = - 1"
  proof
    assume h: "k = 0 \<and> lb = NewLoadBalancer (port lb) (servers lb)"
    then have "roundRobinCount lb = roundRobinCount (NewLoadBalancer (port lb) (servers lb))"
      by simp
    then have "roundRobinCount lb = 0" by (simp add: NewLoadBalancer_def)
    with h cnt show "sint (roundRobinCount lb') = - 1" by simp
  qed
  from c0 c1 c2 c3 have "\<exists>probed. length probed = k
            \<and> tr' = tr @ map (Head \<circ> address) probed @ [Head (address s)]
            \<and> (\<forall>j<k. \<not> fst (IsAlive net (probed ! j) (take (length tr + j) tr')))
            \<and> fst (IsAlive net s (take (length tr + k) tr'))"
    by blast
  with c4 c5 c6 c7 show ?thesis by (intro conjI)
qed

lemma turns_dead_probes:
  assumes cands: "\<forall>j\<le>k. server_at_cursor (lb\<lparr>roundRobinCount := roundRobinCount lb + of_nat j\<rparr>) = Inr (cand j)"
    and dead: "\<forall>j<k. \<not> fst (IsAlive net (cand j) (tr @ map (Head \<circ> address \<circ> cand) [0..<j]))"
  shows "turns net k lb (cand 0) tr =
           Again (lb\<lparr>roundRobinCount := roundRobinCount lb + of_nat k\<rparr>) (cand k)
             (tr @ map (Head \<circ> address \<circ> cand) [0..<k])"
  using assms
proof (induction k)
  case 0
  show ?case by simp
next
  case (Suc k)
  let ?lb = "\<lambda>j. lb\<lparr>roundRobinCount := roundRobinCount lb + of_nat j\<rparr>"
  let ?tr = "\<lambda>j. tr @ map (Head \<circ> address \<circ> cand) [0..<j]"
  from Suc.prems have t: "turns net k lb (cand 0) tr = Again (?lb k) (cand k) (?tr k)"
    by (intro Suc.IH) simp_all
  have step: "(?lb k)\<lparr>roundRobinCount := roundRobinCount (?lb k) + 1\<rparr> = ?lb (Suc k)"
    by (simp add: add.assoc)
  have next_server: "server_at_cursor (?lb (Suc k)) = Inr (cand (Suc k))"
    using Suc.prems(1) by blast
  have d: "\<not> fst (IsAlive net (cand k) (?tr k))"
    using Suc.prems(2) by blast
  have "turns net (Suc k) lb (cand 0) tr = loop_turn net (?lb k) (cand k) (?tr k)"
    using t by simp
  also have "\<dots> = Again (?lb (Suc k)) (cand (Suc k)) (?tr k @ [Head (address (cand k))])"
    unfolding loop_turn_dead [OF d] step next_server by simp
  also have "?tr k @ [Head (address (cand k))] = ?tr (Suc k)"
    by simp
  finally show ?case .
qed

section \<open>Every probe failing\<close>

lemma turns_all_down:
  assumes down: "\<forall>s tr. \<not> fst (IsAlive net s tr)"
    and ne: "servers lb \<noteq> []"
    and c0: "0 \<le> sint (roundRobinCount lb)"
    and bound: "sint (roundRobinCount lb) + int k < 2 ^ 63"
  shows "turns net k lb (servers lb ! (nat (sint (roundRobinCount lb)) mod length (servers lb))) tr =
           Again (lb\<lparr>roundRobinCount := roundRobinCount lb + of_nat k\<rparr>)
             (servers lb ! ((nat (sint (roundRobinCount lb)) + k) mod length (servers lb)))
             (tr @ map (\<lambda>j. Head (address (servers lb !
                     ((nat (sint (roundRobinCount lb)) + j) mod length (servers lb))))) [0..<k])"
  using bound
proof (induction k)
  case 0
  show ?case by simp
next
  case (Suc k)
  let ?c = "roundRobinCount lb"
  let ?n = "length (servers lb)"
  let ?lb = "\<lambda>k. lb\<lparr>roundRobinCount := ?c + of_nat k\<rparr>"
  let ?s = "\<lambda>k. servers lb ! ((nat (sint ?c) + k) mod ?n)"
  let ?tr = "\<lambda>k. tr @ map (\<lambda>j. Head (address (?s j))) [0..<k]"
  from Suc.prems have "sint ?c + int k < 2 ^ 63" by simp
  from Suc.IH [OF this] have t: "turns net k lb (?s 0) tr = Again (?lb k) (?s k) (?tr k)"
    by simp
  have step: "(?lb k)\<lparr>roundRobinCount := roundRobinCount (?lb k) + 1\<rparr> = ?lb (Suc k)"
    by (simp add: add.assoc)
  have "sint (?c + of_nat (Suc k)) = sint ?c + int (Suc k)"
    using c0 Suc.prems by (intro sint_add_of_nat) simp_all
  then have pos: "0 \<le> sint (roundRobinCount (?lb (Suc k)))"
    and ix: "nat (sint (roundRobinCount (?lb (Suc k)))) = nat (sint ?c) + Suc k"
    using c0 by (simp_all add: nat_add_distrib)
  have "server_at_cursor (?lb (Suc k)) =
          Inr (servers (?lb (Suc k)) ! (nat (sint (roundRobinCount (?lb (Suc k))))
                 mod length (servers (?lb (Suc k)))))"
    using ne pos by (intro server_at_cursor_nonneg) simp_all
  then have next_server: "server_at_cursor (?lb (Suc k)) = Inr (?s (Suc k))"
    by (simp only: ix) simp
  have "turns net (Suc k) lb (?s 0) tr = loop_turn net (?lb k) (?s k) (?tr k)"
    using t by simp
  also have "\<dots> = Again (?lb (Suc k)) (?s (Suc k)) (?tr k @ [Head (address (?s k))])"
  proof -
    have dead: "\<not> fst (IsAlive net (?s k) (?tr k))" using down by blast
    show ?thesis unfolding loop_turn_dead [OF dead] step next_server by simp
  qed
  also have "?tr k @ [Head (address (?s k))] = ?tr (Suc k)"
    by simp
  finally show ?case by simp
qed

lemma turns_all_down_single:
  assumes down: "\<forall>s tr. \<not> fst (IsAlive net s tr)" and one: "servers lb = [s]"
  shows "turns net k lb s tr =
           Again (lb\<lparr>roundRobinCount := roundRobinCount lb + of_nat k\<rparr>) s
             (tr @ replicate k (Head (address s)))"
proof (induction k)
  case 0
  show ?case by simp
next
  case (Suc k)
  let ?lb = "\<lambda>k. lb\<lparr>roundRobinCount := roundRobinCount lb + of_nat k\<rparr>"
  have step: "(?lb k)\<lparr>roundRobinCount := roundRobinCount (?lb k) + 1\<rparr> = ?lb (Suc k)"
    by (simp add: add.assoc)
  have next_server: "server_at_cursor (?lb (Suc k)) = Inr s"
    using one by (intro server_at_cursor_single) simp
  have "turns net (Suc k) lb s tr = loop_turn net (?lb k) s (tr @ replicate k (Head (address s)))"
    using Suc.IH by simp
  also have "\<dots> = Again (?lb (Suc k)) s ((tr @ replicate k (Head (address s))) @ [Head (address s)])"
  proof -
    have dead: "\<not> fst (IsAlive net s (tr @ replicate k (Head (address s))))"
      using down by blast
    show ?thesis unfolding loop_turn_dead [OF dead] step next_server by simp
  qed
  finally show ?case by (simp add: replicate_append_same)
qed

lemma all_down_never_returns:
  assumes down: "\<forall>s tr. \<not> fst (IsAlive net s tr)"
  shows "getNextAvailableServer net lb tr \<noteq> Some (Inr s, lb', tr')"
proof
  assume "getNextAvailableServer net lb tr = Some (Inr s, lb', tr')"
  from getNextAvailableServer_InrD [OF this] obtain s0 lb1 where
    "for_loop net lb s0 tr = Some (Inr s, lb1, tr')" by blast
  from for_loop_SomeD [OF this] obtain lb_k s_k tr_k where
    "loop_turn net lb_k s_k tr_k = Leave (Inr s) lb1 tr'" by auto
  from loop_turn_Leave_InrD [OF this] have "fst (IsAlive net s_k tr_k)" by simp
  with down show False by simp
qed

lemma all_down_single_spins:
  assumes down: "\<forall>s tr. \<not> fst (IsAlive net s tr)" and one: "servers lb = [s]"
  shows "getNextAvailableServer net lb tr = None"
proof -
  have "for_loop net lb s tr = None"
  proof (rule ccontr)
    assume "for_loop net lb s tr \<noteq> None"
    then obtain y where "for_loop net lb s tr = Some y" by auto
    from for_loop_SomeD [OF this] obtain k lb_k s_k tr_k where
      t: "turns net k lb s tr = Again lb_k s_k tr_k" and
      l: "loop_turn net lb_k s_k tr_k = Leave (fst y) (fst (snd y)) (snd (snd y))"
      by blast
    from t turns_all_down_single [OF down one, of k tr]
    have "lb_k = lb\<lparr>roundRobinCount := roundRobinCount lb + of_nat k\<rparr>" by simp
    then have "servers (lb_k\<lparr>roundRobinCount := roundRobinCount lb_k + 1\<rparr>) = [s]"
      using one by simp
    then have "server_at_cursor (lb_k\<lparr>roundRobinCount := roundRobinCount lb_k + 1\<rparr>) = Inr s"
      by (rule server_at_cursor_single)
    with down l show False by (simp add: loop_turn_dead)
  qed
  moreover have "server_at_cursor lb = Inr s"
    using one by (rule server_at_cursor_single)
  ultimately show ?thesis by (simp add: getNextAvailableServer_def)
qed

section \<open>Construction\<close>

text \<open>
  C10. \<open>NewLoadBalancer\<close> has no failing branch and checks nothing: whatever the port
  and the list, the empty list included, the result has the cursor at 0 and the port and
  the list as given. That the list is not empty is not checked here: on the empty list
  it is the first call of \<open>getNextAvailableServer\<close> that panics, dividing by zero.
\<close>

theorem NewLoadBalancer_stores_arguments:
  "port (NewLoadBalancer p ss) = p
   \<and> roundRobinCount (NewLoadBalancer p ss) = 0
   \<and> servers (NewLoadBalancer p ss) = ss
   \<and> NewLoadBalancer p [] = \<lparr>port = p, roundRobinCount = 0, servers = []\<rparr>
   \<and> getNextAvailableServer net (NewLoadBalancer p []) tr =
       Some (Inl DivideByZero, NewLoadBalancer p [], tr)"
  by (simp add: NewLoadBalancer_def getNextAvailableServer_def server_at_cursor_def)

section \<open>The liveness probe\<close>

text \<open>
  With the status read as the numeric code, \<open>IsAlive\<close> answers true exactly when the HEAD
  request came back without a transport error and with a code below 400; a code of 400 or
  more and a transport error both give false as an ordinary result, the probe being the
  only effect. The source as written, comparing the status line with 400, does not get
  that far.
\<close>

lemma IsAlive_on_status_code:
  "(fst (IsAlive net s tr) \<longleftrightarrow>
      (\<exists>status. fst (http_Head net (address s) tr) = Response status \<and> status < 400))
   \<and> (\<forall>status. fst (http_Head net (address s) tr) = Response status \<and> status \<ge> 400 \<longrightarrow>
         IsAlive net s tr = (False, tr @ [Head (address s)]))
   \<and> (fst (http_Head net (address s) tr) = TransportError \<longrightarrow>
         IsAlive net s tr = (False, tr @ [Head (address s)]))"
  by (auto simp: IsAlive_def http_Head_def split: head_result.splits)

section \<open>Selection\<close>

text \<open>
  C7. On a fresh load balancer over \<open>[down, up]\<close>, where the probe of the first backend
  fails and the probe of the second, issued right after, succeeds, one call returns the
  second backend. It has probed both, in order, and leaves the cursor at 0.
\<close>

theorem getNextAvailableServer_down_up:
  assumes "\<not> fst (IsAlive net down tr)"
    and "fst (IsAlive net up (tr @ [Head (address down)]))"
  shows "getNextAvailableServer net (NewLoadBalancer p [down, up]) tr =
           Some (Inr up, NewLoadBalancer p [down, up], tr @ [Head (address down), Head (address up)])"
proof -
  let ?lb = "NewLoadBalancer p [down, up]"
  have "for_loop net ?lb down tr =
          Some (Inr up, ?lb\<lparr>roundRobinCount := 0 + 1\<rparr>, tr @ [Head (address down), Head (address up)])"
    using assms
    by (simp add: for_loop_dead for_loop_alive server_at_cursor_1 NewLoadBalancer_def)
  then show ?thesis
    by (simp add: getNextAvailableServer_def server_at_cursor_0 NewLoadBalancer_def)
qed

theorem getNextAvailableServer_down_up_witness:
  "\<not> fst (IsAlive (\<lambda>t url. if url = ''http://up'' then Response 200 else Response 500) \<lparr>address = ''http://down''\<rparr> [])
   \<and> fst (IsAlive (\<lambda>t url. if url = ''http://up'' then Response 200 else Response 500) \<lparr>address = ''http://up''\<rparr>
          [Head ''http://down''])
   \<and> getNextAvailableServer (\<lambda>t url. if url = ''http://up'' then Response 200 else Response 500)
         (NewLoadBalancer ''8000'' [\<lparr>address = ''http://down''\<rparr>, \<lparr>address = ''http://up''\<rparr>]) [] =
       Some (Inr \<lparr>address = ''http://up''\<rparr>,
         NewLoadBalancer ''8000'' [\<lparr>address = ''http://down''\<rparr>, \<lparr>address = ''http://up''\<rparr>],
         [Head ''http://down'', Head ''http://up''])"
proof -
  let ?net = "\<lambda>t url. if url = ''http://up'' then Response 200 else Response 500"
  have h1: "\<not> fst (IsAlive ?net \<lparr>address = ''http://down''\<rparr> [])"
    by (simp add: IsAlive_def http_Head_def)
  have h2: "fst (IsAlive ?net \<lparr>address = ''http://up''\<rparr> ([] @ [Head (address \<lparr>address = ''http://down''\<rparr>)]))"
    by (simp add: IsAlive_def http_Head_def)
  from getNextAvailableServer_down_up [OF h1 h2, of "''8000''"] h1 h2
  show ?thesis by simp
qed

text \<open>
  C9. Let the cursor, advanced \<open>j\<close> times, select the backend \<open>cand j\<close> for every
  \<open>j \<le> k\<close>. If the probes of \<open>cand 0, ..., cand (k - 1)\<close> fail, each at its turn, and
  the probe of \<open>cand k\<close> then succeeds, the call returns \<open>cand k\<close> after these \<open>k + 1\<close>
  probes and leaves the cursor at its old value plus \<open>k\<close> minus one: in the wrapping
  arithmetic of the counter always, and as an equation between integers whenever that sum
  is in the counter's range. With \<open>k = 0\<close> the cursor goes down by one; on a freshly made
  load balancer it becomes -1.
\<close>

theorem cursor_after_dead_probes:
  assumes cands: "\<forall>j\<le>k. server_at_cursor (lb\<lparr>roundRobinCount := roundRobinCount lb + of_nat j\<rparr>) = Inr (cand j)"
    and dead: "\<forall>j<k. \<not> fst (IsAlive net (cand j) (tr @ map (Head \<circ> address \<circ> cand) [0..<j]))"
    and alive: "fst (IsAlive net (cand k) (tr @ map (Head \<circ> address \<circ> cand) [0..<k]))"
  shows "getNextAvailableServer net lb tr =
           Some (Inr (cand k), lb\<lparr>roundRobinCount := roundRobinCount lb + of_nat k - 1\<rparr>,
                 tr @ map (Head \<circ> address \<circ> cand) [0..<Suc k])
         \<and> probes (tr @ map (Head \<circ> address \<circ> cand) [0..<Suc k]) = probes tr + k + 1
         \<and> (- (2 ^ 63) \<le> sint (roundRobinCount lb) + int k - 1
              \<and> sint (roundRobinCount lb) + int k - 1 < 2 ^ 63 \<longrightarrow>
            sint (roundRobinCount lb + of_nat k - 1) = sint (roundRobinCount lb) + int k - 1)
         \<and> (k = 0 \<longrightarrow>
            getNextAvailableServer net lb tr =
              Some (Inr (cand 0), lb\<lparr>roundRobinCount := roundRobinCount lb - 1\<rparr>,
                    tr @ [Head (address (cand 0))]))
         \<and> (k = 0 \<and> lb = NewLoadBalancer (port lb) (servers lb) \<longrightarrow>
            getNextAvailableServer net lb tr =
              Some (Inr (cand 0), \<lparr>port = port lb, roundRobinCount = - 1, servers = servers lb\<rparr>,
                    tr @ [Head (address (cand 0))])
            \<and> sint (- 1 :: 64 word) = - 1)"
proof -
  let ?lbk = "lb\<lparr>roundRobinCount := roundRobinCount lb + of_nat k\<rparr>"
  let ?trk = "tr @ map (Head \<circ> address \<circ> cand) [0..<k]"
  have first: "server_at_cursor lb = Inr (cand 0)"
    using cands [rule_format, of 0] by simp
  have t: "turns net k lb (cand 0) tr = Again ?lbk (cand k) ?trk"
    using cands dead by (rule turns_dead_probes)
  have "for_loop net lb (cand 0) tr = for_loop net ?lbk (cand k) ?trk"
    using for_loop_turns [of net lb "cand 0" tr k] by (simp only: t iteration.case)
  also have "\<dots> = Some (Inr (cand k), ?lbk, ?trk @ [Head (address (cand k))])"
    using alive by (rule for_loop_alive)
  finally have run: "for_loop net lb (cand 0) tr =
                       Some (Inr (cand k), ?lbk, ?trk @ [Head (address (cand k))])" .
  have main: "getNextAvailableServer net lb tr =
           Some (Inr (cand k), lb\<lparr>roundRobinCount := roundRobinCount lb + of_nat k - 1\<rparr>,
                 tr @ map (Head \<circ> address \<circ> cand) [0..<Suc k])"
    by (simp add: getNextAvailableServer_def first run)
  have count: "probes (tr @ map (Head \<circ> address \<circ> cand) [0..<Suc k]) = probes tr + k + 1"
    by (simp add: probes_def filter_map comp_def)
  have plain: "- (2 ^ 63) \<le> sint (roundRobinCount lb) + int k - 1
              \<and> sint (roundRobinCount lb) + int k - 1 < 2 ^ 63 \<longrightarrow>
            sint (roundRobinCount lb + of_nat k - 1) = sint (roundRobinCount lb) + int k - 1"
    using sint_add_of_nat_minus_1 [of "roundRobinCount lb" k] by blast
  have zero: "k = 0 \<longrightarrow>
            getNextAvailableServer net lb tr =
              Some (Inr (cand 0), lb\<lparr>roundRobinCount := roundRobinCount lb - 1\<rparr>,
                    tr @ [Head (address (cand 0))])"
    using main by simp
  have fresh: "k = 0 \<and> lb = NewLoadBalancer (port lb) (servers lb) \<longrightarrow>
            getNextAvailableServer net lb tr =
              Some (Inr (cand 0), \<lparr>port = port lb, roundRobinCount = - 1, servers = servers lb\<rparr>,
                    tr @ [Head (address (cand 0))])
            \<and> sint (- 1 :: 64 word) = - 1"
  proof
    assume h: "k = 0 \<and> lb = NewLoadBalancer (port lb) (servers lb)"
    then have "roundRobinCount lb = roundRobinCount (NewLoadBalancer (port lb) (servers lb))"
      by simp
    then have c: "roundRobinCount lb = 0" by (simp add: NewLoadBalancer_def)
    have "lb\<lparr>roundRobinCount := roundRobinCount lb - 1\<rparr> =
            \<lparr>port = port lb, roundRobinCount = - 1, servers = servers lb\<rparr>"
      using c by simp
    with zero h show "getNextAvailableServer net lb tr =
              Some (Inr (cand 0), \<lparr>port = port lb, roundRobinCount = - 1, servers = servers lb\<rparr>,
                    tr @ [Head (address (cand 0))])
            \<and> sint (- 1 :: 64 word) = - 1"
      by simp
  qed
  from main count plain zero fresh show ?thesis by (intro conjI)
qed

theorem cursor_after_dead_probes_witness:
  "server_at_cursor
        ((NewLoadBalancer ''8000''
          [\<lparr>address = ''http://d1''\<rparr>, \<lparr>address = ''http://d2''\<rparr>, \<lparr>address = ''http://up''\<rparr>])
         \<lparr>roundRobinCount := roundRobinCount (NewLoadBalancer ''8000''
          [\<lparr>address = ''http://d1''\<rparr>, \<lparr>address = ''http://d2''\<rparr>, \<lparr>address = ''http://up''\<rparr>]) + of_nat 0\<rparr>) = Inr \<lparr>address = ''http://d1''\<rparr>
   \<and> server_at_cursor
        ((NewLoadBalancer ''8000''
          [\<lparr>address = ''http://d1''\<rparr>, \<lparr>address = ''http://d2''\<rparr>, \<lparr>address = ''http://up''\<rparr>])
         \<lparr>roundRobinCount := roundRobinCount (NewLoadBalancer ''8000''
          [\<lparr>address = ''http://d1''\<rparr>, \<lparr>address = ''http://d2''\<rparr>, \<lparr>address = ''http://up''\<rparr>]) + of_nat 1\<rparr>) = Inr \<lparr>address = ''http://d2''\<rparr>
   \<and> server_at_cursor
        ((NewLoadBalancer ''8000''
          [\<lparr>address = ''http://d1''\<rparr>, \<lparr>address = ''http://d2''\<rparr>, \<lparr>address = ''http://up''\<rparr>])
         \<lparr>roundRobinCount := roundRobinCount (NewLoadBalancer ''8000''
          [\<lparr>address = ''http://d1''\<rparr>, \<lparr>address = ''http://d2''\<rparr>, \<lparr>address = ''http://up''\<rparr>]) + of_nat 2\<rparr>) = Inr \<lparr>address = ''http://up''\<rparr>
   \<and> \<not> fst (IsAlive (\<lambda>t url. if url = ''http://up'' then Response 200 else Response 500) \<lparr>address = ''http://d1''\<rparr> [])
   \<and> \<not> fst (IsAlive (\<lambda>t url. if url = ''http://up'' then Response 200 else Response 500) \<lparr>address = ''http://d2''\<rparr> [Head ''http://d1''])
   \<and> fst (IsAlive (\<lambda>t url. if url = ''http://up'' then Response 200 else Response 500) \<lparr>address = ''http://up''\<rparr> [Head ''http://d1'', Head ''http://d2''])
   \<and> getNextAvailableServer (\<lambda>t url. if url = ''http://up'' then Response 200 else Response 500)
        (NewLoadBalancer ''8000''
          [\<lparr>address = ''http://d1''\<rparr>, \<lparr>address = ''http://d2''\<rparr>, \<lparr>address = ''http://up''\<rparr>]) [] =
      Some (Inr \<lparr>address = ''http://up''\<rparr>,
        \<lparr>port = ''8000'', roundRobinCount = 1,
         servers = [\<lparr>address = ''http://d1''\<rparr>, \<lparr>address = ''http://d2''\<rparr>, \<lparr>address = ''http://up''\<rparr>]\<rparr>,
        [Head ''http://d1'', Head ''http://d2'', Head ''http://up''])
   \<and> probes [Head ''http://d1'', Head ''http://d2'', Head ''http://up''] = probes [] + 2 + 1
   \<and> sint (0 + of_nat 2 - 1 :: 64 word) = sint (0 :: 64 word) + int 2 - 1
   \<and> getNextAvailableServer (\<lambda>t url. Response 200)
        (NewLoadBalancer ''8000'' [\<lparr>address = ''http://a''\<rparr>]) [] =
      Some (Inr \<lparr>address = ''http://a''\<rparr>,
        \<lparr>port = ''8000'', roundRobinCount = - 1, servers = [\<lparr>address = ''http://a''\<rparr>]\<rparr>,
        [Head ''http://a''])"
proof -
  let ?ss = "[\<lparr>address = ''http://d1''\<rparr>, \<lparr>address = ''http://d2''\<rparr>, \<lparr>address = ''http://up''\<rparr>]"
  let ?lb = "NewLoadBalancer ''8000'' ?ss"
  let ?net = "\<lambda>(t::nat) url. if url = ''http://up'' then Response 200 else Response 500"
  let ?cand = "\<lambda>j. ?ss ! j"
  let ?C = "\<lambda>j. server_at_cursor (?lb\<lparr>roundRobinCount := roundRobinCount ?lb + of_nat j\<rparr>) = Inr (?cand j)"
  let ?D = "\<lambda>j. \<not> fst (IsAlive ?net (?cand j) ([] @ map (Head \<circ> address \<circ> ?cand) [0..<j]))"
  have c0: "?C 0" by code_simp
  have c1: "?C 1" by code_simp
  have c2: "?C 2" by code_simp
  have d0: "?D 0" by code_simp
  have d1: "?D 1" by code_simp
  have cands: "\<forall>j\<le>2. ?C j"
  proof (intro allI impI)
    fix j :: nat assume "j \<le> 2"
    then consider "j = 0" | "j = 1" | "j = 2" by linarith
    then show "?C j"
    proof cases
      case 1 with c0 show ?thesis by (simp only: simp_thms)
    next
      case 2 with c1 show ?thesis by (simp only: simp_thms)
    next
      case 3 with c2 show ?thesis by (simp only: simp_thms)
    qed
  qed
  have dead: "\<forall>j<2. ?D j"
  proof (intro allI impI)
    fix j :: nat assume "j < 2"
    then consider "j = 0" | "j = 1" by linarith
    then show "?D j"
    proof cases
      case 1 with d0 show ?thesis by (simp only: simp_thms)
    next
      case 2 with d1 show ?thesis by (simp only: simp_thms)
    qed
  qed
  have alive: "fst (IsAlive ?net (?cand 2) ([] @ map (Head \<circ> address \<circ> ?cand) [0..<2]))"
    by code_simp
  have w0: "server_at_cursor (?lb\<lparr>roundRobinCount := roundRobinCount ?lb + of_nat 0\<rparr>) =
              Inr \<lparr>address = ''http://d1''\<rparr>"
    by code_simp
  have w1: "server_at_cursor (?lb\<lparr>roundRobinCount := roundRobinCount ?lb + of_nat 1\<rparr>) =
              Inr \<lparr>address = ''http://d2''\<rparr>"
    by code_simp
  have w2: "server_at_cursor (?lb\<lparr>roundRobinCount := roundRobinCount ?lb + of_nat 2\<rparr>) =
              Inr \<lparr>address = ''http://up''\<rparr>"
    by code_simp
  have w3: "\<not> fst (IsAlive ?net \<lparr>address = ''http://d1''\<rparr> [])"
    by code_simp
  have w4: "\<not> fst (IsAlive ?net \<lparr>address = ''http://d2''\<rparr> [Head ''http://d1''])"
    by code_simp
  have w5: "fst (IsAlive ?net \<lparr>address = ''http://up''\<rparr> [Head ''http://d1'', Head ''http://d2''])"
    by code_simp
  note two = cursor_after_dead_probes [OF cands dead alive]
  have e1: "?cand 2 = \<lparr>address = ''http://up''\<rparr>" by code_simp
  have e2: "?lb\<lparr>roundRobinCount := roundRobinCount ?lb + of_nat 2 - 1\<rparr> =
              \<lparr>port = ''8000'', roundRobinCount = 1, servers = ?ss\<rparr>"
    by (simp add: NewLoadBalancer_def)
  have e3: "[] @ map (Head \<circ> address \<circ> ?cand) [0..<Suc 2] =
              [Head ''http://d1'', Head ''http://d2'', Head ''http://up'']"
    by code_simp
  have e4: "roundRobinCount ?lb = 0" by (simp add: NewLoadBalancer_def)
  have call2: "getNextAvailableServer ?net ?lb [] =
      Some (Inr \<lparr>address = ''http://up''\<rparr>,
        \<lparr>port = ''8000'', roundRobinCount = 1, servers = ?ss\<rparr>,
        [Head ''http://d1'', Head ''http://d2'', Head ''http://up''])"
    using two [THEN conjunct1] by (simp only: e1 e2 e3)
  have count2: "probes [Head ''http://d1'', Head ''http://d2'', Head ''http://up''] = probes [] + 2 + 1"
    using two [THEN conjunct2, THEN conjunct1] by (simp only: e3)
  have range: "- (2 ^ 63) \<le> sint (roundRobinCount ?lb) + int 2 - 1
                 \<and> sint (roundRobinCount ?lb) + int 2 - 1 < 2 ^ 63"
    by (simp add: NewLoadBalancer_def)
  have plain2: "sint (0 + of_nat 2 - 1 :: 64 word) = sint (0 :: 64 word) + int 2 - 1"
    using two [THEN conjunct2, THEN conjunct2, THEN conjunct1, THEN mp, OF range]
    by (simp only: e4)
  let ?a = "\<lparr>address = ''http://a''\<rparr>"
  let ?one = "NewLoadBalancer ''8000'' [?a]"
  let ?up = "\<lambda>(t::nat) (url::string). Response 200"
  have a_cands: "\<forall>j\<le>0. server_at_cursor (?one\<lparr>roundRobinCount := roundRobinCount ?one + of_nat j\<rparr>)
                    = Inr ((\<lambda>j. ?a) j)"
    by (simp add: server_at_cursor_single NewLoadBalancer_def)
  have a_dead: "\<forall>j<0. \<not> fst (IsAlive ?up ((\<lambda>j. ?a) j) ([] @ map (Head \<circ> address \<circ> (\<lambda>j. ?a)) [0..<j]))"
    by simp
  have a_alive: "fst (IsAlive ?up ((\<lambda>j. ?a) 0) ([] @ map (Head \<circ> address \<circ> (\<lambda>j. ?a)) [0..<0]))"
    by code_simp
  have a_fresh: "(0::nat) = 0 \<and> ?one = NewLoadBalancer (port ?one) (servers ?one)"
    by (simp add: NewLoadBalancer_def)
  have "getNextAvailableServer ?up ?one [] =
          Some (Inr ?a, \<lparr>port = port ?one, roundRobinCount = - 1, servers = servers ?one\<rparr>,
                [] @ [Head (address ?a)])"
    using cursor_after_dead_probes [OF a_cands a_dead a_alive, THEN conjunct2, THEN conjunct2,
        THEN conjunct2, THEN conjunct2, THEN mp, OF a_fresh]
    by (rule conjunct1)
  then have call0: "getNextAvailableServer ?up ?one [] =
      Some (Inr ?a, \<lparr>port = ''8000'', roundRobinCount = - 1, servers = [?a]\<rparr>, [Head ''http://a''])"
    by (simp add: NewLoadBalancer_def)
  from w0 w1 w2 w3 w4 w5 call2 count2 plain2 call0 show ?thesis by (intro conjI)
qed

section \<open>No backend answering\<close>

text \<open>
  C6, as stated, does not hold in every state. After one call that found the first of two
  backends alive the cursor is -1; if every backend is down from then on, the next call
  panics on the index -1 without a single probe. And with the cursor at the largest
  value of the counter and three backends down, the first turn of the loop wraps the
  cursor to the smallest value and panics on the index -2.
\<close>

theorem scan_ends_in_panic_counterexample:
  "getNextAvailableServer (\<lambda>t url. if t = 0 then Response 200 else TransportError)
      (NewLoadBalancer ''8000'' [\<lparr>address = ''http://a''\<rparr>, \<lparr>address = ''http://b''\<rparr>]) [] =
     Some (Inr \<lparr>address = ''http://a''\<rparr>,
       \<lparr>port = ''8000'', roundRobinCount = - 1,
        servers = [\<lparr>address = ''http://a''\<rparr>, \<lparr>address = ''http://b''\<rparr>]\<rparr>,
       [Head ''http://a''])
   \<and> getNextAvailableServer (\<lambda>t url. if t = 0 then Response 200 else TransportError)
       \<lparr>port = ''8000'', roundRobinCount = - 1,
        servers = [\<lparr>address = ''http://a''\<rparr>, \<lparr>address = ''http://b''\<rparr>]\<rparr>
       [Head ''http://a''] =
     Some (Inl IndexOutOfRange,
       \<lparr>port = ''8000'', roundRobinCount = - 1,
        servers = [\<lparr>address = ''http://a''\<rparr>, \<lparr>address = ''http://b''\<rparr>]\<rparr>,
       [Head ''http://a''])
   \<and> getNextAvailableServer (\<lambda>t url. TransportError)
       \<lparr>port = ''8000'', roundRobinCount = 9223372036854775807,
        servers = [\<lparr>address = ''http://a''\<rparr>, \<lparr>address = ''http://b''\<rparr>,
                   \<lparr>address = ''http://c''\<rparr>]\<rparr> [] =
     Some (Inl IndexOutOfRange,
       \<lparr>port = ''8000'', roundRobinCount = - 9223372036854775808,
        servers = [\<lparr>address = ''http://a''\<rparr>, \<lparr>address = ''http://b''\<rparr>,
                   \<lparr>address = ''http://c''\<rparr>]\<rparr>,
       [Head ''http://b''])"
  by code_simp

text \<open>
  C6, amended. When every probe fails, \<open>getNextAvailableServer\<close> never returns a
  backend. Started on a non-empty list with a cursor \<open>c \<ge> 0\<close>, after any number \<open>k\<close>
  of turns with \<open>c + k < 2^63\<close> the loop is still running: the cursor is \<open>c + k\<close>, the
  \<open>k\<close> probes went to the backends at the places \<open>c, c + 1, ...\<close> taken circularly in
  the configured order, and what remains of the run is the run from that state; the loop
  has no bound and no circuit breaker. With a single backend the loop keeps probing it
  from any cursor and the call never ends.
\<close>

theorem all_down_scan_keeps_probing:
  assumes "\<forall>s tr. \<not> fst (IsAlive net s tr)"
  shows "(\<forall>s lb' tr'. getNextAvailableServer net lb tr \<noteq> Some (Inr s, lb', tr'))
         \<and> (servers lb \<noteq> [] \<and> 0 \<le> sint (roundRobinCount lb)
              \<and> sint (roundRobinCount lb) + int k < 2 ^ 63 \<longrightarrow>
            server_at_cursor lb = Inr (circular lb 0)
            \<and> turns net k lb (circular lb 0) tr =
                Again (lb\<lparr>roundRobinCount := roundRobinCount lb + of_nat k\<rparr>) (circular lb k)
                  (tr @ map (\<lambda>j. Head (address (circular lb j))) [0..<k])
            \<and> sint (roundRobinCount lb + of_nat k) = sint (roundRobinCount lb) + int k
            \<and> for_loop net lb (circular lb 0) tr =
                for_loop net (lb\<lparr>roundRobinCount := roundRobinCount lb + of_nat k\<rparr>) (circular lb k)
                  (tr @ map (\<lambda>j. Head (address (circular lb j))) [0..<k]))
         \<and> (\<forall>s. servers lb = [s] \<longrightarrow>
              getNextAvailableServer net lb tr = None
              \<and> turns net k lb s tr =
                  Again (lb\<lparr>roundRobinCount := roundRobinCount lb + of_nat k\<rparr>) s
                    (tr @ replicate k (Head (address s))))"
proof (intro conjI allI impI)
  fix s lb' tr'
  show "getNextAvailableServer net lb tr \<noteq> Some (Inr s, lb', tr')"
    using assms by (rule all_down_never_returns)
next
  assume h: "servers lb \<noteq> [] \<and> 0 \<le> sint (roundRobinCount lb)
              \<and> sint (roundRobinCount lb) + int k < 2 ^ 63"
  then have ne: "servers lb \<noteq> []" and c0: "0 \<le> sint (roundRobinCount lb)"
    and bound: "sint (roundRobinCount lb) + int k < 2 ^ 63"
    by simp_all
  show first: "server_at_cursor lb = Inr (circular lb 0)"
    using server_at_cursor_nonneg [OF ne c0] by (simp add: circular_def)
  show t: "turns net k lb (circular lb 0) tr =
          Again (lb\<lparr>roundRobinCount := roundRobinCount lb + of_nat k\<rparr>) (circular lb k)
            (tr @ map (\<lambda>j. Head (address (circular lb j))) [0..<k])"
    using turns_all_down [OF assms ne c0 bound, of tr] by (simp add: circular_def)
  show "sint (roundRobinCount lb + of_nat k) = sint (roundRobinCount lb) + int k"
    using c0 bound by (intro sint_add_of_nat) simp_all
  show "for_loop net lb (circular lb 0) tr =
          for_loop net (lb\<lparr>roundRobinCount := roundRobinCount lb + of_nat k\<rparr>) (circular lb k)
            (tr @ map (\<lambda>j. Head (address (circular lb j))) [0..<k])"
    using for_loop_turns [of net lb "circular lb 0" tr k] by (simp only: t iteration.case)
next
  fix s assume one: "servers lb = [s]"
  show "getNextAvailableServer net lb tr = None"
    using assms one by (rule all_down_single_spins)
  show "turns net k lb s tr =
          Again (lb\<lparr>roundRobinCount := roundRobinCount lb + of_nat k\<rparr>) s
            (tr @ replicate k (Head (address s)))"
    using assms one by (rule turns_all_down_single)
qed

theorem all_down_scan_keeps_probing_witness:
  "(\<forall>s tr. \<not> fst (IsAlive (\<lambda>t url. TransportError) s tr))
   \<and> turns (\<lambda>t url. TransportError) 3
        (NewLoadBalancer ''8000'' [\<lparr>address = ''http://a''\<rparr>, \<lparr>address = ''http://b''\<rparr>])
        \<lparr>address = ''http://a''\<rparr> [] =
      Again \<lparr>port = ''8000'', roundRobinCount = 3,
              servers = [\<lparr>address = ''http://a''\<rparr>, \<lparr>address = ''http://b''\<rparr>]\<rparr>
        \<lparr>address = ''http://b''\<rparr>
        [Head ''http://a'', Head ''http://b'', Head ''http://a'']
   \<and> getNextAvailableServer (\<lambda>t url. TransportError)
        (NewLoadBalancer ''8000'' [\<lparr>address = ''http://a''\<rparr>]) [] = None"
proof -
  let ?net = "\<lambda>(t::nat) (url::string). TransportError"
  let ?lb = "NewLoadBalancer ''8000'' [\<lparr>address = ''http://a''\<rparr>, \<lparr>address = ''http://b''\<rparr>]"
  let ?one = "NewLoadBalancer ''8000'' [\<lparr>address = ''http://a''\<rparr>]"
  have down: "\<forall>s tr. \<not> fst (IsAlive ?net s tr)"
    by (simp add: IsAlive_def http_Head_def)
  have pre: "servers ?lb \<noteq> [] \<and> 0 \<le> sint (roundRobinCount ?lb)
               \<and> sint (roundRobinCount ?lb) + int 3 < 2 ^ 63"
    by (simp add: NewLoadBalancer_def)
  have "turns ?net 3 ?lb (circular ?lb 0) [] =
          Again (?lb\<lparr>roundRobinCount := roundRobinCount ?lb + of_nat 3\<rparr>) (circular ?lb 3)
            ([] @ map (\<lambda>j. Head (address (circular ?lb j))) [0..<3])"
    using all_down_scan_keeps_probing [OF down, of ?lb "[]" 3, THEN conjunct2, THEN conjunct1,
        THEN mp, OF pre]
    by (rule conjunct2 [THEN conjunct1])
  moreover have "circular ?lb 0 = \<lparr>address = ''http://a''\<rparr>"
    by code_simp
  moreover have "circular ?lb 3 = \<lparr>address = ''http://b''\<rparr>"
    by code_simp
  moreover have "map (\<lambda>j. Head (address (circular ?lb j))) [0..<3] =
                   [Head ''http://a'', Head ''http://b'', Head ''http://a'']"
    by code_simp
  moreover have "?lb\<lparr>roundRobinCount := roundRobinCount ?lb + of_nat 3\<rparr> =
                   \<lparr>port = ''8000'', roundRobinCount = 3,
                    servers = [\<lparr>address = ''http://a''\<rparr>, \<lparr>address = ''http://b''\<rparr>]\<rparr>"
    by (simp add: NewLoadBalancer_def)
  ultimately have two: "turns ?net 3 ?lb \<lparr>address = ''http://a''\<rparr> [] =
      Again \<lparr>port = ''8000'', roundRobinCount = 3,
              servers = [\<lparr>address = ''http://a''\<rparr>, \<lparr>address = ''http://b''\<rparr>]\<rparr>
        \<lparr>address = ''http://b''\<rparr>
        [Head ''http://a'', Head ''http://b'', Head ''http://a'']"
    by (simp only: append_Nil)
  have "servers ?one = [\<lparr>address = ''http://a''\<rparr>]"
    by (simp add: NewLoadBalancer_def)
  with all_down_scan_keeps_probing [OF down, of ?one "[]" 0, THEN conjunct2, THEN conjunct2,
      THEN spec, of "\<lparr>address = ''http://a''\<rparr>"]
  have single: "getNextAvailableServer ?net ?one [] = None"
    by (simp only: simp_thms)
  from down two single show ?thesis by (intro conjI)
qed

section \<open>Rotation\<close>

text \<open>
  C1. The three backends of \<open>main\<close>, all alive, on a freshly made load balancer: the
  first call returns the first backend and leaves the cursor at -1; the second call
  panics on the index \<open>-1 % 3 = -1\<close>. Three calls in a row therefore end in that panic
  instead of returning the three backends in order.
\<close>

theorem round_robin_second_call_panics:
  "getNextAvailableServer (\<lambda>t url. Response 200)
     (NewLoadBalancer ''8000''
        [\<lparr>address = ''https://www.example.com''\<rparr>, \<lparr>address = ''https://www.bing.com''\<rparr>,
         \<lparr>address = ''https://www.google.com''\<rparr>]) []
   = Some (Inr \<lparr>address = ''https://www.example.com''\<rparr>,
       \<lparr>port = ''8000'', roundRobinCount = - 1, servers =
        [\<lparr>address = ''https://www.example.com''\<rparr>, \<lparr>address = ''https://www.bing.com''\<rparr>,
         \<lparr>address = ''https://www.google.com''\<rparr>]\<rparr>,
       [Head ''https://www.example.com''])
   \<and> consecutive_calls (\<lambda>t url. Response 200) 3
     (NewLoadBalancer ''8000''
        [\<lparr>address = ''https://www.example.com''\<rparr>, \<lparr>address = ''https://www.bing.com''\<rparr>,
         \<lparr>address = ''https://www.google.com''\<rparr>]) []
   = Some (Inl IndexOutOfRange,
       \<lparr>port = ''8000'', roundRobinCount = - 1, servers =
        [\<lparr>address = ''https://www.example.com''\<rparr>, \<lparr>address = ''https://www.bing.com''\<rparr>,
         \<lparr>address = ''https://www.google.com''\<rparr>]\<rparr>,
       [Head ''https://www.example.com''])"
  by code_simp

text \<open>
  C2. One alive backend, fresh load balancer: the call returns it and the cursor goes from
  0 to -1, below its value before the call.
\<close>

theorem cursor_decreases_when_first_probe_succeeds:
  "getNextAvailableServer (\<lambda>t url. Response 200)
     (NewLoadBalancer ''8000'' [\<lparr>address = ''http://a''\<rparr>]) []
   = Some (Inr \<lparr>address = ''http://a''\<rparr>,
       \<lparr>port = ''8000'', roundRobinCount = - 1, servers = [\<lparr>address = ''http://a''\<rparr>]\<rparr>,
       [Head ''http://a''])
   \<and> sint (- 1 :: 64 word) < sint (roundRobinCount (NewLoadBalancer ''8000'' [\<lparr>address = ''http://a''\<rparr>]))"
  by code_simp

text \<open>
  C3. Two backends, the first alive and the second down: the first call returns the alive
  one and leaves the cursor at -1, a state reached by a call; the next call panics on the
  index -1 although a backend is alive.
\<close>

theorem alive_backend_second_call_panics:
  "getNextAvailableServer (\<lambda>t url. if url = ''http://up'' then Response 200 else Response 500)
      (NewLoadBalancer ''8000'' [\<lparr>address = ''http://up''\<rparr>, \<lparr>address = ''http://down''\<rparr>]) [] =
     Some (Inr \<lparr>address = ''http://up''\<rparr>,
       \<lparr>port = ''8000'', roundRobinCount = - 1,
        servers = [\<lparr>address = ''http://up''\<rparr>, \<lparr>address = ''http://down''\<rparr>]\<rparr>,
       [Head ''http://up''])
   \<and> getNextAvailableServer (\<lambda>t url. if url = ''http://up'' then Response 200 else Response 500)
       \<lparr>port = ''8000'', roundRobinCount = - 1,
        servers = [\<lparr>address = ''http://up''\<rparr>, \<lparr>address = ''http://down''\<rparr>]\<rparr>
       [Head ''http://up''] =
     Some (Inl IndexOutOfRange,
       \<lparr>port = ''8000'', roundRobinCount = - 1,
        servers = [\<lparr>address = ''http://up''\<rparr>, \<lparr>address = ''http://down''\<rparr>]\<rparr>,
       [Head ''http://up''])"
  by code_simp

text \<open>
  C4. Three backends of which only one is alive. With the alive one first in the list, the
  second of two calls panics on the index -1. With the alive one in second place, both
  calls return it and the cursor is back at 0.
\<close>

theorem only_alive_backend_first_in_list:
  "consecutive_calls (\<lambda>t url. if url = ''http://up'' then Response 200 else TransportError) 2
      (NewLoadBalancer ''8000''
        [\<lparr>address = ''http://up''\<rparr>, \<lparr>address = ''http://down1''\<rparr>,
         \<lparr>address = ''http://down2''\<rparr>]) [] =
     Some (Inl IndexOutOfRange,
       \<lparr>port = ''8000'', roundRobinCount = - 1,
        servers = [\<lparr>address = ''http://up''\<rparr>, \<lparr>address = ''http://down1''\<rparr>,
                   \<lparr>address = ''http://down2''\<rparr>]\<rparr>,
       [Head ''http://up''])
   \<and> consecutive_calls (\<lambda>t url. if url = ''http://up'' then Response 200 else TransportError) 2
      (NewLoadBalancer ''8000''
        [\<lparr>address = ''http://down1''\<rparr>, \<lparr>address = ''http://up''\<rparr>,
         \<lparr>address = ''http://down2''\<rparr>]) [] =
     Some (Inr [\<lparr>address = ''http://up''\<rparr>, \<lparr>address = ''http://up''\<rparr>],
       \<lparr>port = ''8000'', roundRobinCount = 0,
        servers = [\<lparr>address = ''http://down1''\<rparr>, \<lparr>address = ''http://up''\<rparr>,
                   \<lparr>address = ''http://down2''\<rparr>]\<rparr>,
       [Head ''http://down1'', Head ''http://up'', Head ''http://down1'', Head ''http://up''])"
  by code_simp

section \<open>Forwarding\<close>

text \<open>
  C8. One alive backend, one inbound request: \<open>serveProxy\<close> sends two probes to the
  backend, the one of the selection and the one evaluated for its log line, and then one
  forwarded request.
\<close>

theorem serveProxy_probes_twice:
  "serveProxy (\<lambda>t url. Response 200) (NewLoadBalancer ''8000'' [\<lparr>address = ''http://a''\<rparr>]) []
   = Some (Inr (),
       \<lparr>port = ''8000'', roundRobinCount = - 1, servers = [\<lparr>address = ''http://a''\<rparr>]\<rparr>,
       [Head ''http://a'', Head ''http://a'', Forward ''http://a''])
   \<and> probes [Head ''http://a'', Head ''http://a'', Forward ''http://a''] = 2
   \<and> forwards [Head ''http://a'', Head ''http://a'', Forward ''http://a''] = 1"
  by code_simp

end
